theory Spec2Isabelle
  imports Main "HOL-Library.Sublist"
begin

section \<open>Text and regular expressions\<close>

text \<open>
  \<^verbatim>\<open>adbhelper.py\<close> reads the log as text and tests every line against two compiled
  patterns:
  \<^verbatim>\<open>
  RE_LOGCAT_LEVEL = re.compile(r"^\S+ +(?P<level>[VDIWEF])/(?P<tag>[^() ]+)\s*\(")
  RE_FATAL = re.compile(r"FATAL EXCEPTION|ANR in|java\.lang\.", re.IGNORECASE)
  \<close>
  A Python \<^verbatim>\<open>str\<close> is a sequence of Unicode code points, so a line of the log is a
  list of natural numbers, one per code point. The patterns themselves are written in
  ASCII: their literals stay HOL characters, and \<open>ustr\<close> turns an ASCII text of the program
  into the code points it stands for.
  Both patterns are sequences of quantified single-character atoms, the second one an
  alternation of three such sequences, so a pattern is modelled as the list of its
  alternatives, each a list of pieces, and matched the way Python's engine does it:
  alternatives from left to right, every quantifier greedy, giving characters back one by
  one when the rest of the pattern fails.
\<close>

type_synonym ustring = "nat list"

definition ustr :: "string \<Rightarrow> ustring" where
  "ustr s = map of_char s"

definition is_space :: "nat \<Rightarrow> bool" where
  \<comment> \<open>\<^verbatim>\<open>\s\<close> on \<^verbatim>\<open>str\<close>, which is \<^verbatim>\<open>str.isspace\<close>: U+0009..000D, U+001C..0020, U+0085,
      U+00A0, U+1680, U+2000..200A, U+2028, U+2029, U+202F, U+205F, U+3000\<close>
  "is_space c =
     ((9 \<le> c \<and> c \<le> 13) \<or> (28 \<le> c \<and> c \<le> 32) \<or> c = 133 \<or> c = 160 \<or> c = 5760 \<or>
      (8192 \<le> c \<and> c \<le> 8202) \<or> c = 8232 \<or> c = 8233 \<or> c = 8239 \<or> c = 8287 \<or> c = 12288)"

definition ascii_lower :: "nat \<Rightarrow> nat" where
  \<comment> \<open>the lower-case form of an ASCII capital letter; any other code point as it is\<close>
  "ascii_lower c = (if 65 \<le> c \<and> c \<le> 90 then c + 32 else c)"

text \<open>
  Under \<^verbatim>\<open>re.IGNORECASE\<close> a literal of a \<^verbatim>\<open>str\<close> pattern matches a character when
  the two have the same lower-case form in the engine's sense. For an ASCII literal these
  are its two ASCII forms and, as the documentation of \<^verbatim>\<open>re\<close> says, four more code
  points: U+0130 (capital I with dot above) and U+0131 (dotless i) for the letter i,
  U+017F (long s) for s and U+212A (the Kelvin sign) for k. \<open>re_fold\<close> sends every code
  point to the ASCII lower-case letter it is matched with; it is exact for patterns whose
  literals are ASCII, as those of the program are.
\<close>

definition re_fold :: "nat \<Rightarrow> nat" where
  "re_fold c =
     (if c = 304 \<or> c = 305 then 105
      else if c = 383 then 115
      else if c = 8490 then 107
      else ascii_lower c)"

datatype atom =
    NonSpace            \<comment> \<open>\<^verbatim>\<open>\S\<close>\<close>
  | Space               \<comment> \<open>\<^verbatim>\<open>\s\<close>\<close>
  | Lit char            \<comment> \<open>a literal character\<close>
  | OneOf string        \<comment> \<open>\<^verbatim>\<open>[...]\<close>\<close>
  | NoneOf string       \<comment> \<open>\<^verbatim>\<open>[^...]\<close>\<close>

datatype quant = Once | Plus | Star

datatype piece = Piece "string option" quant atom
  \<comment> \<open>the name of the group around the piece (if any), its quantifier, its atom\<close>

record regex =
  alts :: "piece list list"
  ignorecase :: bool

fun atom_match :: "bool \<Rightarrow> atom \<Rightarrow> nat \<Rightarrow> bool" where
  "atom_match ic NonSpace c = (\<not> is_space c)"
| "atom_match ic Space c = is_space c"
| "atom_match ic (Lit p) c = (if ic then re_fold c = re_fold (of_char p) else c = of_char p)"
| "atom_match ic (OneOf ps) c =
     (if ic then re_fold c \<in> re_fold ` set (ustr ps) else c \<in> set (ustr ps))"
| "atom_match ic (NoneOf ps) c =
     (if ic then re_fold c \<notin> re_fold ` set (ustr ps) else c \<notin> set (ustr ps))"

text \<open>
  \<open>backtrack k s lo n\<close> lets a greedy quantifier take the first \<open>n\<close> characters of
  \<open>s\<close>, then \<open>n - 1\<close>, ... down to \<open>lo\<close>, and stops at the first length for which the
  continuation \<open>k\<close> accepts what is left.
\<close>

primrec backtrack :: "(ustring \<Rightarrow> 'a option) \<Rightarrow> ustring \<Rightarrow> nat \<Rightarrow> nat \<Rightarrow> (ustring \<times> 'a) option" where
  "backtrack k s lo 0 = (if lo = 0 then map_option (Pair []) (k s) else None)"
| "backtrack k s lo (Suc n) =
     (if Suc n < lo then None
      else case k (drop (Suc n) s) of
             Some r \<Rightarrow> Some (take (Suc n) s, r)
           | None \<Rightarrow> backtrack k s lo n)"

definition bind_group :: "string option \<Rightarrow> ustring \<times> (string \<times> ustring) list \<Rightarrow> (string \<times> ustring) list" where
  "bind_group g r = (case g of None \<Rightarrow> snd r | Some name \<Rightarrow> (name, fst r) # snd r)"

text \<open>The groups of the first match of a sequence of pieces at the start of \<open>s\<close>.\<close>

primrec match_seq :: "bool \<Rightarrow> piece list \<Rightarrow> ustring \<Rightarrow> (string \<times> ustring) list option" where
  "match_seq ic [] = (\<lambda>s. Some [])"
| "match_seq ic (p # ps) = (\<lambda>s.
     case p of Piece g q a \<Rightarrow>
       (case q of
          Once \<Rightarrow>
            (case s of
               [] \<Rightarrow> None
             | c # cs \<Rightarrow>
                 if atom_match ic a c
                 then map_option (\<lambda>r. bind_group g ([c], r)) (match_seq ic ps cs)
                 else None)
        | Plus \<Rightarrow>
            map_option (bind_group g)
              (backtrack (match_seq ic ps) s 1 (length (takeWhile (atom_match ic a) s)))
        | Star \<Rightarrow>
            map_option (bind_group g)
              (backtrack (match_seq ic ps) s 0 (length (takeWhile (atom_match ic a) s)))))"

fun match_alts :: "bool \<Rightarrow> piece list list \<Rightarrow> ustring \<Rightarrow> (string \<times> ustring) list option" where
  "match_alts ic [] s = None"
| "match_alts ic (a # as) s =
     (case match_seq ic a s of Some r \<Rightarrow> Some r | None \<Rightarrow> match_alts ic as s)"

definition re_match :: "regex \<Rightarrow> ustring \<Rightarrow> (string \<times> ustring) list option" where
  \<comment> \<open>\<^verbatim>\<open>pattern.match(line)\<close>: a match at position 0 only\<close>
  "re_match re s = match_alts (ignorecase re) (alts re) s"

fun re_search :: "regex \<Rightarrow> ustring \<Rightarrow> (string \<times> ustring) list option" where
  \<comment> \<open>\<^verbatim>\<open>pattern.search(line)\<close>: the first position with a match, the end included\<close>
  "re_search re [] = re_match re []"
| "re_search re (c # cs) =
     (case re_match re (c # cs) of Some r \<Rightarrow> Some r | None \<Rightarrow> re_search re cs)"

definition group :: "(string \<times> ustring) list \<Rightarrow> string \<Rightarrow> ustring" where
  \<comment> \<open>\<^verbatim>\<open>m.group(name)\<close>; both named groups of \<open>RE_LOGCAT_LEVEL\<close> take part in every match\<close>
  "group m name = (case map_of m name of Some v \<Rightarrow> v | None \<Rightarrow> [])"

definition lits :: "string \<Rightarrow> piece list" where
  "lits s = map (\<lambda>c. Piece None Once (Lit c)) s"

definition RE_LOGCAT_LEVEL :: regex where
  "RE_LOGCAT_LEVEL = \<lparr>alts = [[
       Piece None Plus NonSpace,
       Piece None Plus (Lit CHR '' ''),
       Piece (Some ''level'') Once (OneOf ''VDIWEF''),
       Piece None Once (Lit CHR ''/''),
       Piece (Some ''tag'') Plus (NoneOf ''() ''),
       Piece None Star Space,
       Piece None Once (Lit CHR ''('')]],
     ignorecase = False\<rparr>"

definition RE_FATAL :: regex where
  "RE_FATAL = \<lparr>alts = [lits ''FATAL EXCEPTION'', lits ''ANR in'', lits ''java.lang.''],
     ignorecase = True\<rparr>"

section \<open>Dictionaries\<close>

text \<open>
  A Python \<^verbatim>\<open>dict\<close> keeps its keys in insertion order and the report prints them in
  that order, so a dictionary is an association list: assigning to a key that is present
  replaces its value in place, assigning to a new key appends it.
\<close>

fun dict_get :: "('k \<times> 'v) list \<Rightarrow> 'k \<Rightarrow> 'v \<Rightarrow> 'v" where
  "dict_get [] k d = d"
| "dict_get ((k', v) # kvs) k d = (if k' = k then v else dict_get kvs k d)"

fun dict_set :: "('k \<times> 'v) list \<Rightarrow> 'k \<Rightarrow> 'v \<Rightarrow> ('k \<times> 'v) list" where
  "dict_set [] k v = [(k, v)]"
| "dict_set ((k', v') # kvs) k v = (if k' = k then (k, v) # kvs else (k', v') # dict_set kvs k v)"

definition bump :: "('k \<times> int) list \<Rightarrow> 'k \<Rightarrow> ('k \<times> int) list" where
  \<comment> \<open>\<^verbatim>\<open>d[k] = d.get(k, 0) + 1\<close>\<close>
  "bump d k = dict_set d k (dict_get d k 0 + 1)"

section \<open>\<^verbatim>\<open>cmd_analyze_logs\<close>\<close>

text \<open>
  The state of the loop over the lines of the file (\<^verbatim>\<open>for line in f\<close>): the two
  dictionaries and the two counters. Python's integers are unbounded: \<open>int\<close>.
\<close>

record counters =
  levels :: "(ustring \<times> int) list"
  tags :: "(ustring \<times> int) list"
  fatals :: int
  lines_total :: int

definition init_counters :: counters where
  "init_counters = \<lparr>
     levels = [(ustr ''V'', 0), (ustr ''D'', 0), (ustr ''I'', 0), (ustr ''W'', 0), (ustr ''E'', 0),
               (ustr ''F'', 0)],
     tags = [], fatals = 0, lines_total = 0\<rparr>"

definition analyze_line :: "counters \<Rightarrow> ustring \<Rightarrow> counters" where
  \<comment> \<open>the body of the loop\<close>
  "analyze_line st line =
     (let st1 = st\<lparr>lines_total := lines_total st + 1\<rparr>;
          st2 = (case re_match RE_LOGCAT_LEVEL line of
                   Some m \<Rightarrow>
                     (let lvl = group m ''level''; tag = group m ''tag''
                      in st1\<lparr>levels := bump (levels st1) lvl, tags := bump (tags st1) tag\<rparr>)
                 | None \<Rightarrow> st1)
      in case re_search RE_FATAL line of
           Some _ \<Rightarrow> st2\<lparr>fatals := fatals st2 + 1\<rparr>
         | None \<Rightarrow> st2)"

definition analyze_lines :: "ustring list \<Rightarrow> counters" where
  "analyze_lines ls = foldl analyze_line init_counters ls"

text \<open>
  \<^verbatim>\<open>sorted(tags.items(), key=lambda kv: kv[1], reverse=True)[:10]\<close>. Python's sort is
  stable, and with \<^verbatim>\<open>reverse=True\<close> it reverses the list, sorts it and reverses the
  result, which keeps the elements with equal keys in their original order.
  \<open>sort_key\<close> is the stable sort of HOL.
\<close>

definition sorted_reverse :: "('a \<Rightarrow> int) \<Rightarrow> 'a list \<Rightarrow> 'a list" where
  "sorted_reverse key xs = rev (sort_key key (rev xs))"

definition top_tags :: "('k \<times> int) list \<Rightarrow> ('k \<times> int) list" where
  "top_tags tgs = take 10 (sorted_reverse snd tgs)"

text \<open>
  The report, without its \<^verbatim>\<open>file\<close> and \<^verbatim>\<open>analyzed_at\<close> entries (the path and the
  wall-clock time of the run).
\<close>

record report =
  r_lines :: int
  r_levels :: "(ustring \<times> int) list"
  r_fatals_or_anrs :: int
  r_top10_tags :: "(ustring \<times> int) list"

definition cmd_analyze_logs :: "ustring list \<Rightarrow> report" where
  \<comment> \<open>the argument is the sequence of lines the file yields\<close>
  "cmd_analyze_logs ls =
     (let st = analyze_lines ls
      in \<lparr>r_lines = lines_total st, r_levels = levels st,
          r_fatals_or_anrs = fatals st, r_top10_tags = top_tags (tags st)\<rparr>)"

subsection \<open>Notions used in the statements about the analysis\<close>

definition matches_record :: "ustring \<Rightarrow> bool" where
  \<comment> \<open>the line matches the level/tag record pattern\<close>
  "matches_record line = (re_match RE_LOGCAT_LEVEL line \<noteq> None)"

definition tag_before_paren :: "ustring \<Rightarrow> bool" where
  \<comment> \<open>somewhere in the line there is a level, a slash, a tag, optional white space and an
      opening parenthesis\<close>
  "tag_before_paren line =
     (\<exists>pre c t w rest.
        line = pre @ [c] @ ustr ''/'' @ t @ w @ ustr ''('' @ rest \<and>
        c \<in> set (ustr ''VDIWEF'') \<and>
        t \<noteq> [] \<and> (\<forall>x \<in> set t. x \<notin> set (ustr ''() '')) \<and>
        (\<forall>x \<in> set w. is_space x))"

definition record_level :: "ustring \<Rightarrow> ustring option" where
  "record_level line = map_option (\<lambda>m. group m ''level'') (re_match RE_LOGCAT_LEVEL line)"

definition record_tag :: "ustring \<Rightarrow> ustring option" where
  "record_tag line = map_option (\<lambda>m. group m ''tag'') (re_match RE_LOGCAT_LEVEL line)"

definition tag_occurrences :: "ustring list \<Rightarrow> ustring list" where
  \<comment> \<open>the tags of the matching lines, in the order of the input\<close>
  "tag_occurrences ls = List.map_filter record_tag ls"

definition count_tags :: "'k list \<Rightarrow> ('k \<times> int) list" where
  \<comment> \<open>\<^verbatim>\<open>tags[tag] = tags.get(tag, 0) + 1\<close> for each occurrence, from the empty dictionary\<close>
  "count_tags ts = foldl bump [] ts"

definition first_seen :: "'a list \<Rightarrow> 'a \<Rightarrow> nat" where
  \<comment> \<open>the position of the first occurrence of \<open>t\<close> in \<open>ts\<close>\<close>
  "first_seen ts t = length (takeWhile (\<lambda>x. x \<noteq> t) ts)"

definition ranks_before :: "'k list \<Rightarrow> 'k \<times> int \<Rightarrow> 'k \<times> int \<Rightarrow> bool" where
  \<comment> \<open>the ranking of the specification: a larger count first, then the tag seen first\<close>
  "ranks_before ts a b =
     (snd b < snd a \<or> (snd a = snd b \<and> first_seen ts (fst a) < first_seen ts (fst b)))"

definition tag_entry :: "'k list \<Rightarrow> 'k \<Rightarrow> 'k \<times> int" where
  \<comment> \<open>a tag with the number of its occurrences\<close>
  "tag_entry ts t = (t, int (count_list ts t))"

text \<open>
  A line contains a marker, upper and lower case taken as equal, when some stretch of the
  line is the marker up to the case of the ASCII letters (the markers are ASCII). The
  pattern \<open>RE_FATAL\<close> compares with \<open>re_fold\<close> instead.
\<close>

definition contains_ci :: "string \<Rightarrow> ustring \<Rightarrow> bool" where
  "contains_ci marker line = sublist (map ascii_lower (ustr marker)) (map ascii_lower line)"

definition has_fatal_marker :: "ustring \<Rightarrow> bool" where
  "has_fatal_marker line =
     (contains_ci ''FATAL EXCEPTION'' line \<or> contains_ci ''ANR in'' line \<or>
      contains_ci ''java.lang.'' line)"

definition contains_re :: "string \<Rightarrow> ustring \<Rightarrow> bool" where
  "contains_re marker line = sublist (map re_fold (ustr marker)) (map re_fold line)"

definition has_fatal_marker_re :: "ustring \<Rightarrow> bool" where
  "has_fatal_marker_re line =
     (contains_re ''FATAL EXCEPTION'' line \<or> contains_re ''ANR in'' line \<or>
      contains_re ''java.lang.'' line)"

section \<open>Running the device bridge\<close>

text \<open>
  The rest of the program talks to the outside world. A computation is modelled by what
  it emits, in order, and by how it ends: with a value, or with \<^verbatim>\<open>SystemExit(code)\<close>
  raised by \<^verbatim>\<open>die\<close>. The messages of the program are Russian format strings; a
  message is modelled by a constructor per format string, holding the values formatted in.
\<close>

datatype message =
    Msg_text string                 \<comment> \<open>an ASCII text, as it is\<close>
  | Msg_timeout int string          \<comment> \<open>the command exceeded the timeout of \<open>n\<close> s: \<open>cmd\<close>\<close>
  | Msg_adb_missing                 \<comment> \<open>adb not found (\<^verbatim>\<open>FileNotFoundError\<close>)\<close>
  | Msg_run_failed string string    \<comment> \<open>could not run the command \<open>cmd\<close>, and the exception\<close>
  | Msg_popen_failed string string  \<comment> \<open>could not start the process \<open>cmd\<close>, and the exception\<close>
  | Msg_serial_not_found string     \<comment> \<open>no device with this serial in state \<^verbatim>\<open>device\<close>\<close>
  | Msg_no_devices                  \<comment> \<open>no connected devices\<close>
  | Msg_several_devices "string list"
      \<comment> \<open>several devices, give \<^verbatim>\<open>--serial\<close>; the list, one line per device\<close>
  | Msg_recording int               \<comment> \<open>recording the screen for \<open>n\<close> s\<close>
  | Msg_logcat_exit int string      \<comment> \<open>logcat ended with code \<open>rc\<close>, and its error output\<close>
  | Msg_logcat_error string         \<comment> \<open>logcat error, and the exception\<close>
  | Msg_logs_saved string           \<comment> \<open>logs saved to the path\<close>

datatype event =
    Log_debug message                 \<comment> \<open>\<^verbatim>\<open>logging.debug\<close>: a record for the handlers of the log\<close>
  | Log_warning message               \<comment> \<open>\<^verbatim>\<open>logging.warning\<close>\<close>
  | Log_error message                 \<comment> \<open>\<^verbatim>\<open>logging.error\<close>\<close>
  | Print_out message                 \<comment> \<open>\<^verbatim>\<open>print\<close> to the standard output\<close>
  | Print_err message                 \<comment> \<open>\<^verbatim>\<open>print\<close> to the error stream, after the prefix for errors\<close>
  | Subprocess_run "string list" int  \<comment> \<open>\<^verbatim>\<open>subprocess.run(cmd, timeout=t)\<close>\<close>
  | Subprocess_Popen "string list"    \<comment> \<open>\<^verbatim>\<open>subprocess.Popen(cmd)\<close>\<close>
  | Thread_start int                  \<comment> \<open>the thread that stops the capture after \<open>n\<close> s\<close>

type_synonym 'a io = "event list \<times> (int + 'a)"

definition return :: "'a \<Rightarrow> 'a io" where
  "return x = ([], Inr x)"

definition emit :: "event list \<Rightarrow> 'a io \<Rightarrow> 'a io" where
  \<comment> \<open>the events, then the computation\<close>
  "emit evs m = (evs @ fst m, snd m)"


definition die :: "int \<Rightarrow> message \<Rightarrow> 'a io" where
  "die code msg = ([Log_error msg, Print_err msg], Inl code)"






fun join :: "string \<Rightarrow> string list \<Rightarrow> string" where
  "join sep [] = []"
| "join sep [x] = x"
| "join sep (x # y # ys) = x @ sep @ join sep (y # ys)"





definition int_or :: "int option \<Rightarrow> int \<Rightarrow> int" where
  \<comment> \<open>\<^verbatim>\<open>x or y\<close> for an optional integer: \<^verbatim>\<open>None\<close> and \<^verbatim>\<open>0\<close> are false\<close>
  "int_or x y = (case x of None \<Rightarrow> y | Some n \<Rightarrow> if n = 0 then y else n)"

subsection \<open>\<^verbatim>\<open>AdbRunner\<close>\<close>

record adb_runner =
  adb_path :: string
  dry_run :: bool
  timeout :: int

text \<open>What \<^verbatim>\<open>subprocess.run\<close> does with a command and a timeout is the environment's.\<close>

datatype run_outcome =
    Completed int string string   \<comment> \<open>return code, decoded captured output and error output\<close>
  | TimeoutExpired
  | FileNotFoundError
  | OtherException string

type_synonym subprocess = "string list \<Rightarrow> int \<Rightarrow> run_outcome"

definition build :: "adb_runner \<Rightarrow> string list \<Rightarrow> string option \<Rightarrow> string list" where
  "build adb args serial =
     [adb_path adb]
     @ (case serial of None \<Rightarrow> [] | Some s \<Rightarrow> if s = [] then [] else [''-s'', s])
     @ args"

definition run ::
  "adb_runner \<Rightarrow> subprocess \<Rightarrow> string list \<Rightarrow> string option \<Rightarrow> bool \<Rightarrow> int option \<Rightarrow> bool
     \<Rightarrow> (int \<times> string \<times> string) io" where
  "run adb sub args serial capture tmo check =
     (let cmd = build adb args serial
      in emit [Log_debug (Msg_text (''ADB CMD: '' @ join '' '' cmd))]
        (if dry_run adb
         then emit [Print_out (Msg_text (''[DRY-RUN] '' @ join '' '' cmd))] (return (0, [], []))
         else
           (let t = int_or tmo (timeout adb)
            in emit [Subprocess_run cmd t]
              (case sub cmd t of
                 Completed rc out err \<Rightarrow>
                   (let out' = (if capture then out else []);
                        err' = (if capture then err else [])
                    in if check \<and> rc \<noteq> 0
                       then die 1 (Msg_run_failed (join '' '' cmd) ''CalledProcessError'')
                       else return (rc, out', err'))
               | TimeoutExpired \<Rightarrow> die 5 (Msg_timeout t (join '' '' cmd))
               | FileNotFoundError \<Rightarrow> die 2 Msg_adb_missing
               | OtherException e \<Rightarrow> die 1 (Msg_run_failed (join '' '' cmd) e)))))"

subsection \<open>\<^verbatim>\<open>DeviceSelector.pick\<close>\<close>

record device_info =
  serial :: string
  state :: string
  model :: string
  transport :: "string option"
  android :: "string option"
  sdk :: "string option"

definition candidate_line :: "device_info \<Rightarrow> string" where
  \<comment> \<open>\<^verbatim>\<open>f"- {d.serial} ({d.model or 'n/a'})"\<close>\<close>
  "candidate_line d = ''- '' @ serial d @ '' ('' @ (if model d = [] then ''n/a'' else model d) @ '')''"

definition pick :: "device_info list \<Rightarrow> string option \<Rightarrow> string io" where
  \<comment> \<open>\<open>devs\<close> is what \<^verbatim>\<open>self.list_devices()\<close> returned\<close>
  "pick devs preferred_serial =
     (let online = filter (\<lambda>d. state d = ''device'') devs
      in case (case preferred_serial of None \<Rightarrow> None | Some s \<Rightarrow> if s = [] then None else Some s) of
           Some s \<Rightarrow>
             (case find (\<lambda>d. serial d = s) online of
                Some d \<Rightarrow> return (serial d)
              | None \<Rightarrow> die 3 (Msg_serial_not_found s))
         | None \<Rightarrow>
             (case online of
                [] \<Rightarrow> die 3 Msg_no_devices
              | d # ds \<Rightarrow>
                  if length online > 1
                  then die 3 (Msg_several_devices (map candidate_line online))
                  else return (serial d)))"

subsection \<open>\<^verbatim>\<open>cmd_record\<close>\<close>




subsection \<open>\<^verbatim>\<open>cmd_logcat\<close>: the capture\<close>




section \<open>Properties of the matcher\<close>

lemma backtrack_SomeD:
  "backtrack k s lo n = Some (g, r) \<Longrightarrow>
   \<exists>m. lo \<le> m \<and> m \<le> n \<and> g = take m s \<and> k (drop m s) = Some r"
proof (induction n)
  case 0
  then show ?case by (auto split: if_splits)
next
  case (Suc n)
  show ?case
  proof (cases "k (drop (Suc n) s)")
    case None
    with Suc.prems have "backtrack k s lo n = Some (g, r)"
      by (simp split: if_splits)
    from Suc.IH [OF this] obtain m where "lo \<le> m" "m \<le> n" "g = take m s" "k (drop m s) = Some r"
      by blast
    then have "lo \<le> m \<and> m \<le> Suc n \<and> g = take m s \<and> k (drop m s) = Some r" by simp
    then show ?thesis ..
  next
    case (Some r')
    with Suc.prems have "lo \<le> Suc n \<and> Suc n \<le> Suc n \<and> g = take (Suc n) s \<and> k (drop (Suc n) s) = Some r"
      by (auto split: if_splits)
    then show ?thesis ..
  qed
qed

lemma take_takeWhile_all:
  "n \<le> length (takeWhile P s) \<Longrightarrow> c \<in> set (take n s) \<Longrightarrow> P c"
proof (induction s arbitrary: n)
  case Nil
  then show ?case by simp
next
  case (Cons x xs)
  show ?case
  proof (cases n)
    case 0
    with Cons.prems show ?thesis by simp
  next
    case (Suc k)
    with Cons.prems have px: "P x" by (auto split: if_splits)
    with Cons.prems Suc have "k \<le> length (takeWhile P xs)" "c = x \<or> c \<in> set (take k xs)"
      by auto
    with px Cons.IH show ?thesis by blast
  qed
qed

lemma backtrack_splitD:
  assumes "backtrack k s lo (length (takeWhile P s)) = Some (u, r)"
  shows "\<exists>v. s = u @ v \<and> lo \<le> length u \<and> (\<forall>c \<in> set u. P c) \<and> k v = Some r"
proof -
  from backtrack_SomeD [OF assms] obtain m where
    m: "lo \<le> m" "m \<le> length (takeWhile P s)" "u = take m s" "k (drop m s) = Some r"
    by blast
  have "m \<le> length s" using m(2) length_takeWhile_le [of P s] by (rule order_trans)
  then have "length u = m" using m(3) by simp
  moreover have "s = u @ drop m s" using m(3) by simp
  moreover have "\<forall>c \<in> set u. P c" using take_takeWhile_all [OF m(2)] m(3) by blast
  ultimately show ?thesis using m(1,4) by blast
qed

lemma match_seq_OnceD:
  assumes "match_seq ic (Piece g Once a # ps) s = Some m"
  shows "\<exists>c v r. s = c # v \<and> atom_match ic a c \<and> match_seq ic ps v = Some r \<and>
           m = bind_group g ([c], r)"
proof (cases s)
  case Nil
  with assms show ?thesis by simp
next
  case (Cons c v)
  with assms show ?thesis by (cases "atom_match ic a c") auto
qed

lemma match_seq_PlusD:
  assumes "match_seq ic (Piece g Plus a # ps) s = Some m"
  shows "\<exists>u v r. s = u @ v \<and> u \<noteq> [] \<and> (\<forall>c \<in> set u. atom_match ic a c) \<and>
           match_seq ic ps v = Some r \<and> m = bind_group g (u, r)"
proof -
  from assms obtain u r where
    b: "backtrack (match_seq ic ps) s 1 (length (takeWhile (atom_match ic a) s)) = Some (u, r)"
    and m: "m = bind_group g (u, r)"
    by auto
  from backtrack_splitD [OF b] obtain v where
    "s = u @ v" "1 \<le> length u" "\<forall>c \<in> set u. atom_match ic a c" "match_seq ic ps v = Some r"
    by blast
  moreover from this(2) have "u \<noteq> []" by auto
  ultimately show ?thesis using m by blast
qed

lemma match_seq_StarD:
  assumes "match_seq ic (Piece g Star a # ps) s = Some m"
  shows "\<exists>u v r. s = u @ v \<and> (\<forall>c \<in> set u. atom_match ic a c) \<and>
           match_seq ic ps v = Some r \<and> m = bind_group g (u, r)"
proof -
  from assms obtain u r where
    b: "backtrack (match_seq ic ps) s 0 (length (takeWhile (atom_match ic a) s)) = Some (u, r)"
    and m: "m = bind_group g (u, r)"
    by auto
  from backtrack_splitD [OF b] obtain v where
    "s = u @ v" "\<forall>c \<in> set u. atom_match ic a c" "match_seq ic ps v = Some r"
    by blast
  then show ?thesis using m by blast
qed

lemma RE_LOGCAT_LEVEL_shape:
  assumes "re_match RE_LOGCAT_LEVEL line = Some m"
  shows "\<exists>p sp c t w rest.
           line = p @ sp @ [c] @ ustr ''/'' @ t @ w @ ustr ''('' @ rest \<and>
           p \<noteq> [] \<and> (\<forall>x \<in> set p. \<not> is_space x) \<and>
           sp \<noteq> [] \<and> (\<forall>x \<in> set sp. x = of_char CHR '' '') \<and>
           c \<in> set (ustr ''VDIWEF'') \<and>
           t \<noteq> [] \<and> (\<forall>x \<in> set t. x \<notin> set (ustr ''() '')) \<and>
           (\<forall>x \<in> set w. is_space x) \<and>
           m = [(''level'', [c]), (''tag'', t)]"
proof -
  let ?r6 = "[Piece None Once (Lit CHR ''('')]"
  let ?r5 = "Piece None Star Space # ?r6"
  let ?r4 = "Piece (Some ''tag'') Plus (NoneOf ''() '') # ?r5"
  let ?r3 = "Piece None Once (Lit CHR ''/'') # ?r4"
  let ?r2 = "Piece (Some ''level'') Once (OneOf ''VDIWEF'') # ?r3"
  let ?r1 = "Piece None Plus (Lit CHR '' '') # ?r2"
  from assms have m0: "match_seq False (Piece None Plus NonSpace # ?r1) line = Some m"
    by (simp add: re_match_def RE_LOGCAT_LEVEL_def del: match_seq.simps split: option.splits)
  from match_seq_PlusD [OF m0] obtain p l1 m1 where
    p: "line = p @ l1" "p \<noteq> []" "\<forall>x \<in> set p. atom_match False NonSpace x"
    and s1: "match_seq False ?r1 l1 = Some m1"
    and b1: "m = bind_group None (p, m1)"
    by blast
  from match_seq_PlusD [OF s1] obtain sp l2 m2 where
    sp: "l1 = sp @ l2" "sp \<noteq> []" "\<forall>x \<in> set sp. atom_match False (Lit CHR '' '') x"
    and s2: "match_seq False ?r2 l2 = Some m2"
    and b2: "m1 = bind_group None (sp, m2)"
    by blast
  from match_seq_OnceD [OF s2] obtain c l3 m3 where
    c: "l2 = c # l3" "atom_match False (OneOf ''VDIWEF'') c"
    and s3: "match_seq False ?r3 l3 = Some m3"
    and b3: "m2 = bind_group (Some ''level'') ([c], m3)"
    by blast
  from match_seq_OnceD [OF s3] obtain c4 l4 m4 where
    c4: "l3 = c4 # l4" "atom_match False (Lit CHR ''/'') c4"
    and s4: "match_seq False ?r4 l4 = Some m4"
    and b4: "m3 = bind_group None ([c4], m4)"
    by blast
  from match_seq_PlusD [OF s4] obtain t l5 m5 where
    t: "l4 = t @ l5" "t \<noteq> []" "\<forall>x \<in> set t. atom_match False (NoneOf ''() '') x"
    and s5: "match_seq False ?r5 l5 = Some m5"
    and b5: "m4 = bind_group (Some ''tag'') (t, m5)"
    by blast
  from match_seq_StarD [OF s5] obtain w l6 m6 where
    w: "l5 = w @ l6" "\<forall>x \<in> set w. atom_match False Space x"
    and s6: "match_seq False ?r6 l6 = Some m6"
    and b6: "m5 = bind_group None (w, m6)"
    by blast
  from match_seq_OnceD [OF s6] obtain c7 l7 m7 where
    c7: "l6 = c7 # l7" "atom_match False (Lit CHR ''('') c7"
    and s7: "match_seq False [] l7 = Some m7"
    and b7: "m6 = bind_group None ([c7], m7)"
    by blast
  have line: "line = p @ sp @ [c] @ ustr ''/'' @ t @ w @ ustr ''('' @ l7"
    using p(1) sp(1) c(1) c4 t(1) w(1) c7 by (simp add: ustr_def)
  have m: "m = [(''level'', [c]), (''tag'', t)]"
    using b1 b2 b3 b4 b5 b6 b7 s7 by (simp add: bind_group_def)
  have "\<forall>x \<in> set p. \<not> is_space x" using p(3) by simp
  moreover have "\<forall>x \<in> set sp. x = of_char CHR '' ''" using sp(3) by simp
  moreover have "c \<in> set (ustr ''VDIWEF'')" using c(2) by simp
  moreover have "\<forall>x \<in> set t. x \<notin> set (ustr ''() '')" using t(3) by simp
  moreover have "\<forall>x \<in> set w. is_space x" using w(2) by simp
  ultimately show ?thesis using line m p(2) sp(2) t(2) by blast
qed


lemma matches_tag_before_paren:
  assumes "matches_record line" shows "tag_before_paren line"
proof -
  from assms obtain m where "re_match RE_LOGCAT_LEVEL line = Some m"
    by (auto simp: matches_record_def)
  from RE_LOGCAT_LEVEL_shape [OF this] obtain p sp c t w rest where
    l: "line = p @ sp @ [c] @ ustr ''/'' @ t @ w @ ustr ''('' @ rest" and
    h: "c \<in> set (ustr ''VDIWEF'')"
    "t \<noteq> []" "\<forall>x \<in> set t. x \<notin> set (ustr ''() '')"
    "\<forall>x \<in> set w. is_space x"
    by (elim exE conjE)
  from l have "line = (p @ sp) @ [c] @ ustr ''/'' @ t @ w @ ustr ''('' @ rest" by simp
  with h show ?thesis unfolding tag_before_paren_def by (intro exI conjI)
qed

lemma tag_before_paren_has_paren:
  assumes "tag_before_paren line" shows "of_char CHR ''('' \<in> set line"
proof -
  from assms obtain pre c t w rest where
    "line = pre @ [c] @ ustr ''/'' @ t @ w @ ustr ''('' @ rest"
    unfolding tag_before_paren_def by (elim exE conjE)
  then show ?thesis by (simp add: ustr_def)
qed

subsection \<open>Dictionaries\<close>

lemma dict_get_set:
  "dict_get (dict_set d k v) k' x = (if k' = k then v else dict_get d k' x)"
  by (induction d) auto

lemma keys_dict_set:
  "map fst (dict_set d k v) = (if k \<in> set (map fst d) then map fst d else map fst d @ [k])"
  by (induction d) force+

lemma sum_dict_set:
  "sum_list (map snd (dict_set d k v)) = sum_list (map snd d) - dict_get d k 0 + (v::int)"
  by (induction d) auto

lemma dict_get_bump:
  "dict_get (bump d k) k' 0 = dict_get d k' 0 + (if k' = k then 1 else 0)"
  by (simp add: bump_def dict_get_set)

lemma keys_bump:
  "map fst (bump d k) = (if k \<in> set (map fst d) then map fst d else map fst d @ [k])"
  by (simp add: bump_def keys_dict_set)

lemma sum_bump: "sum_list (map snd (bump d k)) = sum_list (map snd d) + 1"
  by (simp add: bump_def sum_dict_set)

subsection \<open>The loop\<close>

lemma record_level_None: "record_level l = None \<longleftrightarrow> \<not> matches_record l"
  by (simp add: record_level_def matches_record_def)

lemma record_tag_None: "record_tag l = None \<longleftrightarrow> \<not> matches_record l"
  by (simp add: record_tag_def matches_record_def)

lemma record_level_six:
  assumes "record_level l = Some lvl"
  shows "lvl \<in> set [ustr ''V'', ustr ''D'', ustr ''I'', ustr ''W'', ustr ''E'', ustr ''F'']"
proof -
  from assms obtain m where m: "re_match RE_LOGCAT_LEVEL l = Some m" and g: "lvl = group m ''level''"
    by (auto simp: record_level_def)
  from RE_LOGCAT_LEVEL_shape [OF m] obtain c t where
    "c \<in> set (ustr ''VDIWEF'')" "m = [(''level'', [c]), (''tag'', t)]"
    by blast
  with g show ?thesis by (auto simp: group_def ustr_def)
qed

lemma lines_total_analyze_line: "lines_total (analyze_line st l) = lines_total st + 1"
  by (simp add: analyze_line_def Let_def split: option.splits)

lemma levels_analyze_line:
  "levels (analyze_line st l) =
     (case record_level l of None \<Rightarrow> levels st | Some lvl \<Rightarrow> bump (levels st) lvl)"
  by (simp add: analyze_line_def record_level_def Let_def split: option.splits)

lemma tags_analyze_line:
  "tags (analyze_line st l) =
     (case record_tag l of None \<Rightarrow> tags st | Some tag \<Rightarrow> bump (tags st) tag)"
  by (simp add: analyze_line_def record_tag_def Let_def split: option.splits)

lemma lines_total_foldl:
  "lines_total (foldl analyze_line st ls) = lines_total st + int (length ls)"
  by (induction ls arbitrary: st) (simp_all add: lines_total_analyze_line)

lemma sum_levels_analyze_line:
  "sum_list (map snd (levels (analyze_line st l))) =
     sum_list (map snd (levels st)) + (if matches_record l then 1 else 0)"
  by (cases "record_level l")
     (simp_all add: levels_analyze_line sum_bump record_level_None [symmetric])

lemma sum_tags_analyze_line:
  "sum_list (map snd (tags (analyze_line st l))) =
     sum_list (map snd (tags st)) + (if matches_record l then 1 else 0)"
  by (cases "record_tag l")
     (simp_all add: tags_analyze_line sum_bump record_tag_None [symmetric])

lemma sum_levels_foldl:
  "sum_list (map snd (levels (foldl analyze_line st ls))) =
     sum_list (map snd (levels st)) + int (length (filter matches_record ls))"
  by (induction ls arbitrary: st) (simp_all add: sum_levels_analyze_line)

lemma sum_tags_foldl:
  "sum_list (map snd (tags (foldl analyze_line st ls))) =
     sum_list (map snd (tags st)) + int (length (filter matches_record ls))"
  by (induction ls arbitrary: st) (simp_all add: sum_tags_analyze_line)

lemma length_filter_split:
  "length ls = length (filter P ls) + length (filter (\<lambda>l. \<not> P l) ls)"
  by (induction ls) simp_all

lemma keys_levels_analyze_line:
  assumes "map fst (levels st) = [ustr ''V'', ustr ''D'', ustr ''I'', ustr ''W'', ustr ''E'', ustr ''F'']"
  shows "map fst (levels (analyze_line st l)) = [ustr ''V'', ustr ''D'', ustr ''I'', ustr ''W'', ustr ''E'', ustr ''F'']"
proof (cases "record_level l")
  case None
  with assms show ?thesis by (simp add: levels_analyze_line)
next
  case (Some lvl)
  from record_level_six [OF Some] assms have "lvl \<in> set (map fst (levels st))" by simp
  with Some assms show ?thesis by (simp add: levels_analyze_line keys_bump)
qed

lemma keys_levels_foldl:
  "map fst (levels st) = [ustr ''V'', ustr ''D'', ustr ''I'', ustr ''W'', ustr ''E'', ustr ''F''] \<Longrightarrow>
   map fst (levels (foldl analyze_line st ls)) = [ustr ''V'', ustr ''D'', ustr ''I'', ustr ''W'', ustr ''E'', ustr ''F'']"
  by (induction ls arbitrary: st) (simp_all add: keys_levels_analyze_line)

lemma level_count_analyze_line:
  "dict_get (levels (analyze_line st l)) k 0 =
     dict_get (levels st) k 0 + (if record_level l = Some k then 1 else 0)"
  by (cases "record_level l") (auto simp: levels_analyze_line dict_get_bump)

lemma level_count_foldl:
  "dict_get (levels (foldl analyze_line st ls)) k 0 =
     dict_get (levels st) k 0 + int (length (filter (\<lambda>l. record_level l = Some k) ls))"
  by (induction ls arbitrary: st) (simp_all add: level_count_analyze_line)

lemma tags_foldl:
  "tags (foldl analyze_line st ls) = foldl bump (tags st) (tag_occurrences ls)"
proof (induction ls arbitrary: st)
  case Nil
  show ?case by (simp add: tag_occurrences_def List.map_filter_simps)
next
  case (Cons l ls)
  show ?case
    using Cons.IH [of "analyze_line st l"]
    by (cases "record_tag l")
       (simp_all add: tag_occurrences_def List.map_filter_simps tags_analyze_line)
qed

subsection \<open>The fatal markers\<close>

lemma match_seq_lits:
  "match_seq True (lits m) s =
     (if prefix (map re_fold (ustr m)) (map re_fold s) then Some [] else None)"
proof (induction m arbitrary: s)
  case Nil
  show ?case by (simp add: lits_def ustr_def)
next
  case (Cons c m)
  have IH: "\<And>s. match_seq True (map (\<lambda>c. Piece None Once (Lit c)) m) s =
     (if prefix (map re_fold (ustr m)) (map re_fold s) then Some [] else None)"
    using Cons.IH by (simp add: lits_def)
  show ?case
  proof (cases s)
    case Nil
    then show ?thesis by (simp add: lits_def ustr_def)
  next
    case (Cons x xs)
    then show ?thesis using IH [of xs] by (auto simp: lits_def bind_group_def ustr_def)
  qed
qed

lemma re_match_RE_FATAL:
  "re_match RE_FATAL s \<noteq> None \<longleftrightarrow>
     prefix (map re_fold (ustr ''FATAL EXCEPTION'')) (map re_fold s) \<or>
     prefix (map re_fold (ustr ''ANR in'')) (map re_fold s) \<or>
     prefix (map re_fold (ustr ''java.lang.'')) (map re_fold s)"
  by (simp add: re_match_def RE_FATAL_def match_seq_lits del: match_seq.simps)

lemma re_search_RE_FATAL: "re_search RE_FATAL s \<noteq> None \<longleftrightarrow> has_fatal_marker_re s"
proof (induction s)
  case Nil
  have "re_search RE_FATAL [] \<noteq> None \<longleftrightarrow> re_match RE_FATAL [] \<noteq> None" by simp
  also have "\<dots> \<longleftrightarrow> False" unfolding re_match_RE_FATAL by (simp add: ustr_def)
  also have "\<dots> \<longleftrightarrow> has_fatal_marker_re []"
    by (simp add: has_fatal_marker_re_def contains_re_def ustr_def)
  finally show ?case .
next
  case (Cons c cs)
  have "re_search RE_FATAL (c # cs) \<noteq> None \<longleftrightarrow>
          re_match RE_FATAL (c # cs) \<noteq> None \<or> re_search RE_FATAL cs \<noteq> None"
    by (simp split: option.splits)
  also have "\<dots> \<longleftrightarrow> has_fatal_marker_re (c # cs)"
    unfolding Cons.IH re_match_RE_FATAL has_fatal_marker_re_def contains_re_def
    by (auto simp only: list.map sublist_Cons_right)
  finally show ?case .
qed

text \<open>The two ways of comparing agree on the lines without U+0130 and U+0131.\<close>

lemma prefix_map_cong:
  assumes "\<forall>c \<in> set l. \<forall>x \<in> set xs. (f c = x) = (g c = x)"
  shows "prefix xs (map f l) = prefix xs (map g l)"
  using assms
proof (induction xs arbitrary: l)
  case Nil
  show ?case by simp
next
  case (Cons x xs)
  show ?case
  proof (cases l)
    case Nil
    then show ?thesis by simp
  next
    case (Cons c l')
    have "prefix xs (map f l') = prefix xs (map g l')"
      using Cons.prems Cons by (intro Cons.IH) simp
    moreover have "(f c = x) = (g c = x)" using Cons.prems Cons by simp
    ultimately show ?thesis using Cons by auto
  qed
qed

lemma sublist_map_cong:
  assumes "\<forall>c \<in> set l. \<forall>x \<in> set xs. (f c = x) = (g c = x)"
  shows "sublist xs (map f l) = sublist xs (map g l)"
  using assms
proof (induction l)
  case Nil
  show ?case by simp
next
  case (Cons c l)
  have "sublist xs (map f l) = sublist xs (map g l)" using Cons by simp
  moreover have "prefix xs (map f (c # l)) = prefix xs (map g (c # l))"
    using Cons.prems by (rule prefix_map_cong)
  ultimately show ?case by (simp only: list.map sublist_Cons_right)
qed

lemma re_fold_ascii_lower: "re_fold (ascii_lower c) = re_fold c"
  by (simp add: re_fold_def ascii_lower_def)

lemma contains_ci_re: "contains_ci m line \<Longrightarrow> contains_re m line"
proof -
  assume "contains_ci m line"
  then have "sublist (map re_fold (map ascii_lower (ustr m))) (map re_fold (map ascii_lower line))"
    unfolding contains_ci_def by (rule map_mono_sublist)
  then show ?thesis by (simp add: contains_re_def re_fold_ascii_lower comp_def)
qed

lemma has_fatal_marker_re_if: "has_fatal_marker line \<Longrightarrow> has_fatal_marker_re line"
  unfolding has_fatal_marker_def has_fatal_marker_re_def using contains_ci_re by blast

lemma re_fold_eq_ascii_lower:
  assumes "c \<noteq> 304" "c \<noteq> 305" "x \<noteq> 115" "x \<noteq> 107" "x \<noteq> 383" "x \<noteq> 8490"
  shows "(re_fold c = x) = (ascii_lower c = x)"
  using assms by (auto simp: re_fold_def ascii_lower_def)

lemma contains_re_ci:
  assumes "304 \<notin> set line" "305 \<notin> set line"
    and "\<forall>x \<in> set (map re_fold (ustr m)). x \<noteq> 115 \<and> x \<noteq> 107 \<and> x \<noteq> 383 \<and> x \<noteq> 8490"
    and "map re_fold (ustr m) = map ascii_lower (ustr m)"
  shows "contains_re m line = contains_ci m line"
proof -
  have "\<forall>c \<in> set line. \<forall>x \<in> set (map re_fold (ustr m)). (re_fold c = x) = (ascii_lower c = x)"
  proof (intro ballI)
    fix c x assume c: "c \<in> set line" and x: "x \<in> set (map re_fold (ustr m))"
    from c assms(1,2) have "c \<noteq> 304" "c \<noteq> 305" by auto
    moreover from x assms(3) have "x \<noteq> 115" "x \<noteq> 107" "x \<noteq> 383" "x \<noteq> 8490" by auto
    ultimately show "(re_fold c = x) = (ascii_lower c = x)" by (rule re_fold_eq_ascii_lower)
  qed
  then have "sublist (map re_fold (ustr m)) (map re_fold line)
             = sublist (map re_fold (ustr m)) (map ascii_lower line)"
    by (rule sublist_map_cong)
  then show ?thesis by (simp add: contains_re_def contains_ci_def assms(4))
qed

lemma has_fatal_marker_re_iff:
  assumes "304 \<notin> set line" "305 \<notin> set line"
  shows "has_fatal_marker_re line = has_fatal_marker line"
proof -
  have 1: "contains_re ''FATAL EXCEPTION'' line = contains_ci ''FATAL EXCEPTION'' line"
    by (rule contains_re_ci [OF assms]) (simp_all add: ustr_def re_fold_def ascii_lower_def)
  have 2: "contains_re ''ANR in'' line = contains_ci ''ANR in'' line"
    by (rule contains_re_ci [OF assms]) (simp_all add: ustr_def re_fold_def ascii_lower_def)
  have 3: "contains_re ''java.lang.'' line = contains_ci ''java.lang.'' line"
    by (rule contains_re_ci [OF assms]) (simp_all add: ustr_def re_fold_def ascii_lower_def)
  show ?thesis by (simp add: has_fatal_marker_re_def has_fatal_marker_def 1 2 3)
qed

lemma fatals_analyze_line:
  "fatals (analyze_line st l) = fatals st + (if has_fatal_marker_re l then 1 else 0)"
proof (cases "re_search RE_FATAL l")
  case None
  with re_search_RE_FATAL [of l] have "\<not> has_fatal_marker_re l" by simp
  with None show ?thesis by (simp add: analyze_line_def Let_def split: option.splits)
next
  case (Some m)
  with re_search_RE_FATAL [of l] have "has_fatal_marker_re l" by simp
  with Some show ?thesis by (simp add: analyze_line_def Let_def split: option.splits)
qed

lemma fatals_foldl:
  "fatals (foldl analyze_line st ls) = fatals st + int (length (filter has_fatal_marker_re ls))"
  by (induction ls arbitrary: st) (simp_all add: fatals_analyze_line)

subsection \<open>The ranking\<close>

lemma sorted_reverse_descending:
  "sorted_wrt (\<lambda>a b. key b \<le> key a) (sorted_reverse key xs)"
proof -
  have "sorted (map key (sort_key key (rev xs)))" by simp
  then have "sorted_wrt (\<lambda>a b. key a \<le> key b) (sort_key key (rev xs))"
    by (simp only: sorted_map)
  then show ?thesis by (simp add: sorted_reverse_def sorted_wrt_rev)
qed

lemma sorted_reverse_stable:
  "filter (\<lambda>y. key y = k) (sorted_reverse key xs) = filter (\<lambda>y. key y = k) xs"
proof -
  have "filter (\<lambda>y. key y = k) (sorted_reverse key xs)
        = rev (filter (\<lambda>y. key y = k) (sort_key key (rev xs)))"
    by (simp add: sorted_reverse_def rev_filter)
  also have "\<dots> = rev (filter (\<lambda>y. key y = k) (rev xs))"
    by (simp only: sort_key_stable)
  also have "\<dots> = filter (\<lambda>y. key y = k) xs" by (simp add: rev_filter)
  finally show ?thesis .
qed

lemma set_sorted_reverse: "set (sorted_reverse key xs) = set xs"
  by (simp add: sorted_reverse_def)

lemma ties_in_order:
  fixes key :: "'a \<Rightarrow> int"
  assumes "sorted_wrt (\<lambda>a b. key b \<le> key a) ys"
    and "\<And>k. sorted_wrt R (filter (\<lambda>y. key y = k) ys)"
  shows "sorted_wrt (\<lambda>a b. key b < key a \<or> (key a = key b \<and> R a b)) ys"
  using assms
proof (induction ys)
  case Nil
  show ?case by simp
next
  case (Cons y ys)
  have tail: "sorted_wrt (\<lambda>a b. key b < key a \<or> (key a = key b \<and> R a b)) ys"
  proof (rule Cons.IH)
    show "sorted_wrt (\<lambda>a b. key b \<le> key a) ys" using Cons.prems(1) by simp
    fix k
    show "sorted_wrt R (filter (\<lambda>y. key y = k) ys)"
      using Cons.prems(2) [of k] by (cases "key y = k") simp_all
  qed
  have head: "key z < key y \<or> (key y = key z \<and> R y z)" if z: "z \<in> set ys" for z
  proof (cases "key z = key y")
    case True
    have "sorted_wrt R (y # filter (\<lambda>x. key x = key y) ys)"
      using Cons.prems(2) [of "key y"] by simp
    with z True show ?thesis by auto
  next
    case False
    moreover have "key z \<le> key y" using Cons.prems(1) z by simp
    ultimately show ?thesis by (simp add: less_le)
  qed
  from head tail show ?case by simp
qed

lemma count_tags_snoc: "count_tags (ts @ [t]) = bump (count_tags ts) t"
  by (simp add: count_tags_def)

lemma keys_count_tags: "set (map fst (count_tags ts)) = set ts"
  by (induction ts rule: rev_induct) (auto simp: count_tags_snoc keys_bump count_tags_def)

lemma keys_count_tags_image: "fst ` set (count_tags ts) = set ts"
  using keys_count_tags [of ts] by simp

lemma first_seen_snoc_old: "k \<in> set ts \<Longrightarrow> first_seen (ts @ [t]) k = first_seen ts k"
  by (simp add: first_seen_def takeWhile_append1)

lemma first_seen_lt: "k \<in> set ts \<Longrightarrow> first_seen ts k < length ts"
  unfolding first_seen_def by (induction ts) auto

lemma first_seen_snoc_new: "t \<notin> set ts \<Longrightarrow> first_seen (ts @ [t]) t = length ts"
  unfolding first_seen_def by (induction ts) auto

lemma count_tags_first_seen:
  "sorted_wrt (\<lambda>a b. first_seen ts a < first_seen ts b) (map fst (count_tags ts))"
proof (induction ts rule: rev_induct)
  case Nil
  show ?case by (simp add: count_tags_def)
next
  case (snoc t ts)
  let ?ks = "map fst (count_tags ts)"
  have old: "sorted_wrt (\<lambda>a b. first_seen (ts @ [t]) a < first_seen (ts @ [t]) b) ?ks"
  proof (rule sorted_wrt_mono_rel [OF _ snoc.IH])
    fix a b assume "a \<in> set ?ks" "b \<in> set ?ks" and lt: "first_seen ts a < first_seen ts b"
    then have "a \<in> set ts" "b \<in> set ts" by (simp_all only: keys_count_tags)
    then show "first_seen (ts @ [t]) a < first_seen (ts @ [t]) b"
      using lt by (simp add: first_seen_snoc_old)
  qed
  show ?case
  proof (cases "t \<in> set ts")
    case True
    then show ?thesis using old by (simp add: count_tags_snoc keys_bump keys_count_tags_image)
  next
    case False
    have "first_seen (ts @ [t]) a < first_seen (ts @ [t]) t" if "a \<in> set ?ks" for a
    proof -
      from that have a: "a \<in> set ts" by (simp only: keys_count_tags)
      show ?thesis
        using first_seen_lt [OF a] by (simp add: first_seen_snoc_old [OF a] first_seen_snoc_new [OF False])
    qed
    then show ?thesis
      using old False by (simp add: count_tags_snoc keys_bump keys_count_tags_image sorted_wrt_append)
  qed
qed

lemma full_ranked:
  "sorted_wrt (ranks_before ts) (sorted_reverse snd (count_tags ts))"
proof -
  let ?d = "count_tags ts"
  let ?R = "\<lambda>a b. first_seen ts (fst a) < first_seen ts (fst b)"
  have d: "sorted_wrt ?R ?d"
    using count_tags_first_seen [of ts] by (simp add: sorted_wrt_map)
  have "sorted_wrt ?R (filter (\<lambda>y. snd y = k) (sorted_reverse snd ?d))" for k
    unfolding sorted_reverse_stable using d by (rule sorted_wrt_filter)
  with sorted_reverse_descending [of snd ?d]
  have "sorted_wrt (\<lambda>a b. snd b < snd a \<or> (snd a = snd b \<and> ?R a b)) (sorted_reverse snd ?d)"
    by (rule ties_in_order)
  then show ?thesis
    by (simp add: ranks_before_def [abs_def])
qed

lemma top_tags_ranked:
  "sorted_wrt (ranks_before ts) (top_tags (count_tags ts))"
  unfolding top_tags_def using full_ranked by (rule sorted_wrt_take)


lemma sorted_wrt_neq_distinct: "sorted_wrt (\<lambda>a b. a \<noteq> b) xs \<Longrightarrow> distinct xs"
  by (induction xs) auto

lemma dict_get_distinct:
  "distinct (map fst d) \<Longrightarrow> (k, v) \<in> set d \<Longrightarrow> dict_get d k x = v"
  by (induction d) (auto simp: image_iff)

lemma count_tags_value: "dict_get (count_tags ts) t 0 = int (count_list ts t)"
  by (induction ts rule: rev_induct) (simp_all add: count_tags_snoc dict_get_bump count_tags_def)

lemma distinct_keys_count_tags: "distinct (map fst (count_tags ts))"
proof -
  have "sorted_wrt (\<lambda>a b. a \<noteq> b) (map fst (count_tags ts))"
    by (rule sorted_wrt_mono_rel [OF _ count_tags_first_seen [of ts]]) auto
  then show ?thesis by (rule sorted_wrt_neq_distinct)
qed

lemma top_tags_subset: "set (top_tags d) \<subseteq> set d"
  unfolding top_tags_def using set_take_subset [of 10 "sorted_reverse snd d"]
  by (simp add: set_sorted_reverse)

lemma top_tags_counts:
  assumes "(t, c) \<in> set (top_tags (count_tags ts))"
  shows "c = int (count_list ts t)"
proof -
  from assms top_tags_subset have "(t, c) \<in> set (count_tags ts)" by blast
  from dict_get_distinct [OF distinct_keys_count_tags this, of 0] show ?thesis
    by (simp add: count_tags_value)
qed

lemma top_tags_entries: "set (top_tags (count_tags ts)) \<subseteq> tag_entry ts ` set ts"
proof
  fix e assume e: "e \<in> set (top_tags (count_tags ts))"
  then have "(fst e, snd e) \<in> set (top_tags (count_tags ts))" by simp
  then have c: "snd e = int (count_list ts (fst e))" by (rule top_tags_counts)
  from e top_tags_subset have "e \<in> set (count_tags ts)" by blast
  then have "fst e \<in> set (map fst (count_tags ts))" by simp
  then have "fst e \<in> set ts" by (simp only: keys_count_tags)
  moreover have "e = tag_entry ts (fst e)" using c by (simp add: tag_entry_def prod_eq_iff)
  ultimately show "e \<in> tag_entry ts ` set ts" by (rule rev_image_eqI)
qed

lemma entry_in_count_tags:
  assumes "t \<in> set ts" shows "tag_entry ts t \<in> set (count_tags ts)"
proof -
  from assms have "t \<in> set (map fst (count_tags ts))" by (simp only: keys_count_tags)
  then obtain v where v: "(t, v) \<in> set (count_tags ts)" by auto
  from dict_get_distinct [OF distinct_keys_count_tags this, of 0]
  have "v = int (count_list ts t)" by (simp add: count_tags_value)
  with v show ?thesis by (simp add: tag_entry_def)
qed

lemma length_count_tags: "length (count_tags ts) = card (set ts)"
proof -
  have "length (count_tags ts) = length (map fst (count_tags ts))" by simp
  also have "\<dots> = card (set (map fst (count_tags ts)))"
    using distinct_keys_count_tags [of ts] by (simp only: distinct_card)
  also have "\<dots> = card (set ts)" by (simp only: keys_count_tags)
  finally show ?thesis .
qed

lemma length_top_tags: "length (top_tags (count_tags ts)) = min 10 (card (set ts))"
  by (simp add: top_tags_def sorted_reverse_def length_count_tags min.commute)

lemma unlisted_ranks_after:
  assumes "t \<in> set ts" and "tag_entry ts t \<notin> set (top_tags (count_tags ts))"
    and "e \<in> set (top_tags (count_tags ts))"
  shows "ranks_before ts e (tag_entry ts t)"
proof -
  let ?full = "sorted_reverse snd (count_tags ts)"
  have "tag_entry ts t \<in> set ?full"
    using entry_in_count_tags [OF assms(1)] by (simp add: set_sorted_reverse)
  then have "tag_entry ts t \<in> set (take 10 ?full) \<union> set (drop 10 ?full)"
    by (simp only: set_append [symmetric] append_take_drop_id)
  with assms(2) have d: "tag_entry ts t \<in> set (drop 10 ?full)" by (simp add: top_tags_def)
  have "sorted_wrt (ranks_before ts) (take 10 ?full @ drop 10 ?full)"
    using full_ranked [of ts] by simp
  then have "\<forall>x \<in> set (take 10 ?full). \<forall>y \<in> set (drop 10 ?full). ranks_before ts x y"
    by (simp only: sorted_wrt_append) simp
  with d assms(3) show ?thesis by (simp add: top_tags_def)
qed

section \<open>Evaluation on given lines\<close>

lemmas analysis_eval =
  cmd_analyze_logs_def analyze_lines_def analyze_line_def init_counters_def Let_def
  re_match_def RE_LOGCAT_LEVEL_def RE_FATAL_def lits_def bind_group_def group_def bump_def
  matches_record_def ustr_def is_space_def re_fold_def ascii_lower_def

lemmas marker_eval =
  has_fatal_marker_def contains_ci_def has_fatal_marker_re_def contains_re_def
  ustr_def re_fold_def ascii_lower_def sublist_code(3)

section \<open>The claims about the analysis\<close>

text \<open>
  Claim C1. For every input, the total line count is the number of lines that match the
  level/tag record pattern plus the number of lines that do not; the level counts add up
  to the number of matching lines, and so do the tag counts. Every line adds one to the
  total; it adds one to the count of exactly one level and of exactly one tag when it
  matches the pattern, and changes no level or tag count when it does not, whatever the
  line holds besides (fatal markers included).
\<close>

theorem line_count_partition:
  "r_lines (cmd_analyze_logs ls) =
     int (length (filter matches_record ls)) + int (length (filter (\<lambda>l. \<not> matches_record l) ls))
   \<and> r_lines (cmd_analyze_logs ls) = int (length ls)
   \<and> sum_list (map snd (r_levels (cmd_analyze_logs ls))) = int (length (filter matches_record ls))
   \<and> sum_list (map snd (tags (analyze_lines ls))) = int (length (filter matches_record ls))
   \<and> lines_total (analyze_line st l) = lines_total st + 1
   \<and> (\<exists>lvl tag. \<forall>k.
         dict_get (levels (analyze_line st l)) k 0 =
           dict_get (levels st) k 0 + (if matches_record l \<and> k = lvl then 1 else 0) \<and>
         dict_get (tags (analyze_line st l)) k 0 =
           dict_get (tags st) k 0 + (if matches_record l \<and> k = tag then 1 else 0))"
proof -
  have a: "r_lines (cmd_analyze_logs ls) =
     int (length (filter matches_record ls)) + int (length (filter (\<lambda>l. \<not> matches_record l) ls))"
    using length_filter_split [of ls matches_record]
    by (simp add: cmd_analyze_logs_def analyze_lines_def Let_def lines_total_foldl init_counters_def)
  have a': "r_lines (cmd_analyze_logs ls) = int (length ls)"
    by (simp add: cmd_analyze_logs_def analyze_lines_def Let_def lines_total_foldl init_counters_def)
  have b: "sum_list (map snd (r_levels (cmd_analyze_logs ls))) = int (length (filter matches_record ls))"
    by (simp add: cmd_analyze_logs_def analyze_lines_def Let_def sum_levels_foldl init_counters_def)
  have c: "sum_list (map snd (tags (analyze_lines ls))) = int (length (filter matches_record ls))"
    by (simp add: analyze_lines_def sum_tags_foldl init_counters_def)
  have d: "lines_total (analyze_line st l) = lines_total st + 1"
    by (rule lines_total_analyze_line)
  have e: "\<exists>lvl tag. \<forall>k.
         dict_get (levels (analyze_line st l)) k 0 =
           dict_get (levels st) k 0 + (if matches_record l \<and> k = lvl then 1 else 0) \<and>
         dict_get (tags (analyze_line st l)) k 0 =
           dict_get (tags st) k 0 + (if matches_record l \<and> k = tag then 1 else 0)"
  proof (cases "re_match RE_LOGCAT_LEVEL l")
    case None
    then have "\<not> matches_record l" "record_level l = None" "record_tag l = None"
      by (simp_all add: matches_record_def record_level_def record_tag_def)
    then show ?thesis by (simp add: levels_analyze_line tags_analyze_line)
  next
    case (Some m)
    then have m: "matches_record l" "record_level l = Some (group m ''level'')"
      "record_tag l = Some (group m ''tag'')"
      by (simp_all add: matches_record_def record_level_def record_tag_def)
    have "\<forall>k.
         dict_get (levels (analyze_line st l)) k 0 =
           dict_get (levels st) k 0 + (if matches_record l \<and> k = group m ''level'' then 1 else 0) \<and>
         dict_get (tags (analyze_line st l)) k 0 =
           dict_get (tags st) k 0 + (if matches_record l \<and> k = group m ''tag'' then 1 else 0)"
      using m by (simp add: levels_analyze_line tags_analyze_line dict_get_bump)
    then show ?thesis by blast
  qed
  from a a' b c d e show ?thesis by blast
qed

theorem line_count_partition_witness:
  "r_lines (cmd_analyze_logs [ustr ''12:00 I/Tag1 (7): up'', ustr ''no record here'',
      ustr ''12:01 E/Net(9): FATAL EXCEPTION: main'']) = 2 + 1
   \<and> sum_list (map snd (r_levels (cmd_analyze_logs [ustr ''12:00 I/Tag1 (7): up'',
      ustr ''no record here'', ustr ''12:01 E/Net(9): FATAL EXCEPTION: main'']))) = 2"
proof -
  let ?ls = "[ustr ''12:00 I/Tag1 (7): up'', ustr ''no record here'',
              ustr ''12:01 E/Net(9): FATAL EXCEPTION: main'']"
  have m: "length (filter matches_record ?ls) = 2" by (simp add: analysis_eval)
  have u: "length (filter (\<lambda>l. \<not> matches_record l) ?ls) = 1" by (simp add: analysis_eval)
  from line_count_partition [of ?ls init_counters "ustr ''x''"] m u show ?thesis by simp
qed

text \<open>
  Claim C2, as stated: the single line \<^verbatim>\<open>I/Tag1: msg\<close> gives the level counts
  V:0, D:0, I:1, W:0, E:0, F:0. It does not: the pattern rejects the line and I stays
  at 0.
\<close>

theorem single_line_without_prefix_counterexample:
  "r_levels (cmd_analyze_logs [ustr ''I/Tag1: msg'']) \<noteq>
     [(ustr ''V'', 0), (ustr ''D'', 0), (ustr ''I'', 1), (ustr ''W'', 0), (ustr ''E'', 0),
      (ustr ''F'', 0)]"
  by (simp add: analysis_eval)

text \<open>
  Claim C2, amended. The single line \<^verbatim>\<open>I/Tag1: msg\<close> gives the six levels, all at 0:
  the pattern accepts a line only where the level, the slash and the tag (not empty, with
  no space and no parenthesis) are followed by optional white space and an opening
  parenthesis, and this line has no parenthesis.
\<close>

theorem single_line_level_counts:
  "r_levels (cmd_analyze_logs [ustr ''I/Tag1: msg'']) =
     [(ustr ''V'', 0), (ustr ''D'', 0), (ustr ''I'', 0), (ustr ''W'', 0), (ustr ''E'', 0),
      (ustr ''F'', 0)]
   \<and> (matches_record line \<longrightarrow> tag_before_paren line \<and> of_char CHR ''('' \<in> set line)
   \<and> of_char CHR ''('' \<notin> set (ustr ''I/Tag1: msg'')"
proof -
  have a: "r_levels (cmd_analyze_logs [ustr ''I/Tag1: msg'']) =
     [(ustr ''V'', 0), (ustr ''D'', 0), (ustr ''I'', 0), (ustr ''W'', 0), (ustr ''E'', 0),
      (ustr ''F'', 0)]"
    by (simp add: analysis_eval)
  have b: "matches_record line \<longrightarrow> tag_before_paren line \<and> of_char CHR ''('' \<in> set line"
    using matches_tag_before_paren tag_before_paren_has_paren by blast
  have c: "of_char CHR ''('' \<notin> set (ustr ''I/Tag1: msg'')" by (simp add: ustr_def)
  from a b c show ?thesis by blast
qed

theorem single_line_level_counts_witness:
  "matches_record (ustr ''12:00 I/Tag1 (7): msg'')
   \<and> tag_before_paren (ustr ''12:00 I/Tag1 (7): msg'')
   \<and> of_char CHR ''('' \<in> set (ustr ''12:00 I/Tag1 (7): msg'')"
proof -
  have m: "matches_record (ustr ''12:00 I/Tag1 (7): msg'')" by (simp add: analysis_eval)
  from single_line_level_counts [of "ustr ''12:00 I/Tag1 (7): msg''"] m
  show ?thesis by blast
qed

text \<open>
  Claim C5. The level-count mapping of the report has exactly the keys V, D, I, W, E, F,
  in this order, whatever the input; the count of a level is the number of lines of that
  level (so zero when there is none, and zero for any other key), and no count is negative.
\<close>

theorem level_counts_six_keys:
  "map fst (r_levels (cmd_analyze_logs ls)) =
     [ustr ''V'', ustr ''D'', ustr ''I'', ustr ''W'', ustr ''E'', ustr ''F'']
   \<and> (\<forall>k. dict_get (r_levels (cmd_analyze_logs ls)) k 0 =
            int (length (filter (\<lambda>l. record_level l = Some k) ls)))
   \<and> (\<forall>kv \<in> set (r_levels (cmd_analyze_logs ls)). 0 \<le> snd kv)"
proof -
  let ?lv = "r_levels (cmd_analyze_logs ls)"
  have lv: "?lv = levels (foldl analyze_line init_counters ls)"
    by (simp add: cmd_analyze_logs_def analyze_lines_def Let_def)
  have keys: "map fst ?lv = [ustr ''V'', ustr ''D'', ustr ''I'', ustr ''W'', ustr ''E'', ustr ''F'']"
    unfolding lv by (rule keys_levels_foldl) (simp add: init_counters_def)
  have vals: "dict_get ?lv k 0 = int (length (filter (\<lambda>l. record_level l = Some k) ls))" for k
    unfolding lv by (simp add: level_count_foldl init_counters_def)
  have "0 \<le> snd kv" if "kv \<in> set ?lv" for kv
  proof -
    have "distinct (map fst ?lv)" by (simp only: keys) (simp add: ustr_def)
    moreover from that have "(fst kv, snd kv) \<in> set ?lv" by simp
    ultimately have "dict_get ?lv (fst kv) 0 = snd kv" by (rule dict_get_distinct)
    then show ?thesis using vals [of "fst kv"] by simp
  qed
  with keys vals show ?thesis by blast
qed

theorem level_counts_six_keys_witness:
  "r_levels (cmd_analyze_logs [ustr ''12:00 I/Tag1 (7): up'', ustr ''no record here'']) =
     [(ustr ''V'', 0), (ustr ''D'', 0), (ustr ''I'', 1), (ustr ''W'', 0), (ustr ''E'', 0),
      (ustr ''F'', 0)]
   \<and> (ustr ''I'', 1) \<in> set (r_levels (cmd_analyze_logs [ustr ''12:00 I/Tag1 (7): up'',
        ustr ''no record here'']))
   \<and> (0::int) \<le> snd (ustr ''I'', 1::int)"
proof -
  have "r_levels (cmd_analyze_logs [ustr ''12:00 I/Tag1 (7): up'', ustr ''no record here'']) =
     [(ustr ''V'', 0), (ustr ''D'', 0), (ustr ''I'', 1), (ustr ''W'', 0), (ustr ''E'', 0),
      (ustr ''F'', 0)]"
    by (simp add: analysis_eval)
  with level_counts_six_keys [of "[ustr ''12:00 I/Tag1 (7): up'', ustr ''no record here'']"]
  show ?thesis by simp
qed

text \<open>
  Claim C4, as stated: a line that contains none of the markers, upper and lower case
  taken as equal, leaves the fatal counter unchanged. The line \<^verbatim>\<open>FATAL EXCEPT\<close>, U+0130,
  \<^verbatim>\<open>ON\<close> contains none (U+0130 is no case of the letter i: its lower case is i followed
  by U+0307), and it is counted.
\<close>

theorem fatal_marker_dotted_I_counterexample:
  "\<not> has_fatal_marker (ustr ''FATAL EXCEPT'' @ [304] @ ustr ''ON'')
   \<and> r_fatals_or_anrs (cmd_analyze_logs [ustr ''FATAL EXCEPT'' @ [304] @ ustr ''ON'']) = 1"
proof -
  have "\<not> has_fatal_marker (ustr ''FATAL EXCEPT'' @ [304] @ ustr ''ON'')"
    by (simp add: marker_eval)
  moreover have "r_fatals_or_anrs (cmd_analyze_logs [ustr ''FATAL EXCEPT'' @ [304] @ ustr ''ON'']) = 1"
    by (simp add: analysis_eval)
  ultimately show ?thesis by simp
qed

text \<open>
  Claim C4, amended. Every line is searched for \<^verbatim>\<open>FATAL EXCEPTION\<close>, \<^verbatim>\<open>ANR in\<close> and
  \<^verbatim>\<open>java.lang.\<close> with \<^verbatim>\<open>re.IGNORECASE\<close>, whether or not it matches the record pattern:
  upper and lower case are taken as equal and, besides, U+0130 and U+0131 are taken for
  the letter i. The fatal counter of the report is the number of lines that contain at
  least one marker in this sense: such a line adds exactly one, also when it contains
  several markers, and any other line adds nothing. Every line that contains a marker
  with upper and lower case taken as equal is counted, and on the lines without U+0130
  and U+0131 the two senses are the same, so there the claim holds as it was stated.
\<close>

theorem fatal_counter_once_per_line:
  "r_fatals_or_anrs (cmd_analyze_logs ls) = int (length (filter has_fatal_marker_re ls))
   \<and> fatals (analyze_line st l) = fatals st + (if has_fatal_marker_re l then 1 else 0)
   \<and> (has_fatal_marker l \<longrightarrow> has_fatal_marker_re l)
   \<and> (304 \<notin> set l \<and> 305 \<notin> set l \<longrightarrow> has_fatal_marker_re l = has_fatal_marker l)
   \<and> ((\<forall>l \<in> set ls. 304 \<notin> set l \<and> 305 \<notin> set l) \<longrightarrow>
        r_fatals_or_anrs (cmd_analyze_logs ls) = int (length (filter has_fatal_marker ls)))
   \<and> fatals (analyze_line st (ustr ''12:01 E/App(9): FATAL EXCEPTION: main, ANR in app''))
        = fatals st + 1
   \<and> fatals (analyze_line st (ustr ''Caused by: Java.Lang.NullPointerException'')) = fatals st + 1
   \<and> fatals (analyze_line st (ustr ''12:01 E/App(9): fine'')) = fatals st"
proof -
  have s: "fatals (analyze_line st l) = fatals st + (if has_fatal_marker_re l then 1 else 0)"
    for st l
    by (rule fatals_analyze_line)
  have t: "r_fatals_or_anrs (cmd_analyze_logs ls) = int (length (filter has_fatal_marker_re ls))"
    by (simp add: cmd_analyze_logs_def analyze_lines_def Let_def fatals_foldl init_counters_def)
  have i: "has_fatal_marker l \<longrightarrow> has_fatal_marker_re l"
    using has_fatal_marker_re_if by blast
  have e: "304 \<notin> set l \<and> 305 \<notin> set l \<longrightarrow> has_fatal_marker_re l = has_fatal_marker l"
    using has_fatal_marker_re_iff by blast
  have f: "(\<forall>l \<in> set ls. 304 \<notin> set l \<and> 305 \<notin> set l) \<longrightarrow>
        r_fatals_or_anrs (cmd_analyze_logs ls) = int (length (filter has_fatal_marker ls))"
  proof
    assume "\<forall>l \<in> set ls. 304 \<notin> set l \<and> 305 \<notin> set l"
    then have "filter has_fatal_marker_re ls = filter has_fatal_marker ls"
      by (intro filter_cong refl) (simp add: has_fatal_marker_re_iff)
    with t show "r_fatals_or_anrs (cmd_analyze_logs ls) = int (length (filter has_fatal_marker ls))"
      by simp
  qed
  have m1: "has_fatal_marker_re (ustr ''12:01 E/App(9): FATAL EXCEPTION: main, ANR in app'')"
    by (simp add: marker_eval)
  have m2: "has_fatal_marker_re (ustr ''Caused by: Java.Lang.NullPointerException'')"
    by (simp add: marker_eval)
  have m3: "\<not> has_fatal_marker_re (ustr ''12:01 E/App(9): fine'')"
    by (simp add: marker_eval)
  from s t i e f m1 m2 m3 show ?thesis by simp
qed

theorem fatal_counter_once_per_line_witness:
  "r_fatals_or_anrs (cmd_analyze_logs [ustr ''fatal exception and anr in one line'',
      ustr ''quiet'', ustr ''x W/T(1): java.lang.Error'']) = 2
   \<and> has_fatal_marker (ustr ''x W/T(1): java.lang.Error'')
   \<and> has_fatal_marker_re (ustr ''x W/T(1): java.lang.Error'')"
proof -
  let ?ls = "[ustr ''fatal exception and anr in one line'', ustr ''quiet'',
              ustr ''x W/T(1): java.lang.Error'']"
  have n: "\<forall>l \<in> set ?ls. 304 \<notin> set l \<and> 305 \<notin> set l" by (simp add: ustr_def)
  have c: "length (filter has_fatal_marker ?ls) = 2" by (simp add: marker_eval)
  have h: "has_fatal_marker (ustr ''x W/T(1): java.lang.Error'')" by (simp add: marker_eval)
  from fatal_counter_once_per_line [of ?ls init_counters "ustr ''x W/T(1): java.lang.Error''"]
    n c h
  show ?thesis by simp
qed

text \<open>
  Claim C3. For every sequence of tag occurrences the top-tags list is the start of the
  ranking of the tags: it has 10 entries, or as many as there are tags when these are
  fewer; every entry is a tag of the sequence with the number of its occurrences; the
  entries are ordered by descending count and, among equal counts, by first occurrence in
  the input; and every tag that is not listed ranks after every listed one. For the
  counts A = 3, B = 3, C = 5 with the tags first met in the order A, C, B the list is
  C, A, B. The report's list is the one of the tags of the matching lines.
\<close>

theorem top_tags_ranking:
  "length (top_tags (count_tags ts)) = min 10 (card (set ts))
   \<and> length (top_tags (count_tags ts)) \<le> 10
   \<and> sorted_wrt (ranks_before ts) (top_tags (count_tags ts))
   \<and> set (top_tags (count_tags ts)) \<subseteq> tag_entry ts ` set ts
   \<and> (\<forall>t \<in> set ts. tag_entry ts t \<in> set (top_tags (count_tags ts)) \<or>
         (\<forall>e \<in> set (top_tags (count_tags ts)). ranks_before ts e (tag_entry ts t)))
   \<and> top_tags (count_tags [''A'', ''C'', ''B'', ''A'', ''C'', ''B'', ''A'', ''C'', ''B'', ''C'', ''C''])
        = [(''C'', 5), (''A'', 3), (''B'', 3)]
   \<and> r_top10_tags (cmd_analyze_logs ls) = top_tags (count_tags (tag_occurrences ls))"
proof -
  have a: "length (top_tags (count_tags ts)) = min 10 (card (set ts))" by (rule length_top_tags)
  then have a': "length (top_tags (count_tags ts)) \<le> 10" by simp
  have b: "sorted_wrt (ranks_before ts) (top_tags (count_tags ts))" by (rule top_tags_ranked)
  have c: "set (top_tags (count_tags ts)) \<subseteq> tag_entry ts ` set ts" by (rule top_tags_entries)
  have u: "\<forall>t \<in> set ts. tag_entry ts t \<in> set (top_tags (count_tags ts)) \<or>
         (\<forall>e \<in> set (top_tags (count_tags ts)). ranks_before ts e (tag_entry ts t))"
    using unlisted_ranks_after [of _ ts] by blast
  have d: "top_tags (count_tags [''A'', ''C'', ''B'', ''A'', ''C'', ''B'', ''A'', ''C'', ''B'', ''C'', ''C''])
        = [(''C'', 5), (''A'', 3), (''B'', 3)]"
    by code_simp
  have e: "r_top10_tags (cmd_analyze_logs ls) = top_tags (count_tags (tag_occurrences ls))"
    by (simp add: cmd_analyze_logs_def analyze_lines_def Let_def tags_foldl init_counters_def
        count_tags_def)
  from a a' b c u d e show ?thesis by blast
qed

theorem top_tags_ranking_witness:
  "top_tags (count_tags [''B'', ''A'', ''B'', ''A'', ''C'']) = [(''B'', 2), (''A'', 2), (''C'', 1)]
   \<and> length (top_tags (count_tags [''B'', ''A'', ''B'', ''A'', ''C''])) = min 10 3
   \<and> ranks_before [''B'', ''A'', ''B'', ''A'', ''C''] (''B'', 2) (''A'', 2)
   \<and> ranks_before [''B'', ''A'', ''B'', ''A'', ''C''] (''A'', 2) (''C'', 1)
   \<and> tag_entry [''B'', ''A'', ''B'', ''A'', ''C''] ''A''
        \<in> set (top_tags (count_tags [''B'', ''A'', ''B'', ''A'', ''C'']))"
proof -
  let ?ts = "[''B'', ''A'', ''B'', ''A'', ''C'']"
  have v: "top_tags (count_tags ?ts) = [(''B'', 2), (''A'', 2), (''C'', 1)]"
    by code_simp
  have k: "card (set ?ts) = 3" by code_simp
  have t: "tag_entry ?ts ''A'' = (''A'', 2)" by (simp add: tag_entry_def)
  from top_tags_ranking [of ?ts "[]"] v k t show ?thesis
    by simp
qed

section \<open>The claims about the commands\<close>




text \<open>
  Claim C7. With no serial given, \<^verbatim>\<open>pick\<close> ends with exit code 3 when no device is in
  state \<^verbatim>\<open>device\<close>; returns the serial of the device when exactly one is; and ends with
  exit code 3 and a message that has a line with the serial of every such device when
  there are two or more. An empty serial counts as none.
\<close>
theorem pick_without_serial:
  "(filter (\<lambda>d. state d = ''device'') devs = [] \<longrightarrow>
      pick devs None = ([Log_error Msg_no_devices, Print_err Msg_no_devices], Inl 3))
   \<and> (filter (\<lambda>d. state d = ''device'') devs = [d] \<longrightarrow> pick devs None = ([], Inr (serial d)))
   \<and> (2 \<le> length (filter (\<lambda>d. state d = ''device'') devs) \<longrightarrow>
        pick devs None =
          ([Log_error (Msg_several_devices (map candidate_line (filter (\<lambda>d. state d = ''device'') devs))),
            Print_err (Msg_several_devices (map candidate_line (filter (\<lambda>d. state d = ''device'') devs)))],
           Inl 3)
        \<and> (\<forall>c \<in> set (filter (\<lambda>d. state d = ''device'') devs).
              \<exists>l \<in> set (map candidate_line (filter (\<lambda>d. state d = ''device'') devs)).
                sublist (serial c) l))
   \<and> pick devs (Some []) = pick devs None"
proof -
  let ?online = "filter (\<lambda>d. state d = ''device'') devs"
  have a: "?online = [] \<longrightarrow>
      pick devs None = ([Log_error Msg_no_devices, Print_err Msg_no_devices], Inl 3)"
    by (simp add: pick_def die_def)
  have b: "?online = [d] \<longrightarrow> pick devs None = ([], Inr (serial d))"
    by (simp add: pick_def return_def)
  have c1: "2 \<le> length ?online \<longrightarrow>
        pick devs None =
          ([Log_error (Msg_several_devices (map candidate_line ?online)),
            Print_err (Msg_several_devices (map candidate_line ?online))], Inl 3)"
    by (cases ?online) (simp_all add: pick_def die_def Let_def)
  have "sublist (serial c) (candidate_line c)" for c
    unfolding candidate_line_def
    by (metis sublist_appendI)
  then have c2: "\<forall>c \<in> set ?online. \<exists>l \<in> set (map candidate_line ?online). sublist (serial c) l"
    by auto
  have e: "pick devs (Some []) = pick devs None" by (simp add: pick_def)
  from a b c1 c2 e show ?thesis by blast
qed


theorem pick_without_serial_witness:
  "pick [\<lparr>serial = ''A'', state = ''offline'', model = '''', transport = None, android = None, sdk = None\<rparr>]
     None = ([Log_error Msg_no_devices, Print_err Msg_no_devices], Inl 3)
   \<and> pick [\<lparr>serial = ''A'', state = ''offline'', model = '''', transport = None, android = None, sdk = None\<rparr>,
           \<lparr>serial = ''B'', state = ''device'', model = ''Pixel'', transport = None, android = None, sdk = None\<rparr>]
     None = ([], Inr ''B'')
   \<and> pick [\<lparr>serial = ''A'', state = ''device'', model = '''', transport = None, android = None, sdk = None\<rparr>,
           \<lparr>serial = ''B'', state = ''device'', model = ''Pixel'', transport = None, android = None, sdk = None\<rparr>]
     None = ([Log_error (Msg_several_devices [''- A (n/a)'', ''- B (Pixel)'']),
              Print_err (Msg_several_devices [''- A (n/a)'', ''- B (Pixel)''])], Inl 3)"
proof -
  let ?a = "\<lparr>serial = ''A'', state = ''offline'', model = '''', transport = None, android = None, sdk = None\<rparr>"
  let ?a' = "\<lparr>serial = ''A'', state = ''device'', model = '''', transport = None, android = None, sdk = None\<rparr>"
  let ?b = "\<lparr>serial = ''B'', state = ''device'', model = ''Pixel'', transport = None, android = None, sdk = None\<rparr>"
  have 1: "pick [?a] None = ([Log_error Msg_no_devices, Print_err Msg_no_devices], Inl 3)"
    using pick_without_serial [of "[?a]" ?a] by simp
  have 2: "pick [?a, ?b] None = ([], Inr ''B'')"
    using pick_without_serial [of "[?a, ?b]" ?b] by simp
  have 3: "pick [?a', ?b] None = ([Log_error (Msg_several_devices [''- A (n/a)'', ''- B (Pixel)'']),
              Print_err (Msg_several_devices [''- A (n/a)'', ''- B (Pixel)''])], Inl 3)"
    using pick_without_serial [of "[?a', ?b]" ?b] by (simp add: candidate_line_def)
  from 1 2 3 show ?thesis by simp
qed




text \<open>
  Claim C9. In dry-run mode, for every argument list and serial, \<^verbatim>\<open>run\<close> prints the
  command line it would run and returns \<^verbatim>\<open>(0, "", "")\<close>; it does not call
  \<^verbatim>\<open>subprocess.run\<close>, so the result does not depend on the environment.
\<close>
theorem run_dry_run:
  assumes "dry_run adb"
  shows "run adb sub args srl capture tmo check =
           ([Log_debug (Msg_text (''ADB CMD: '' @ join '' '' (build adb args srl))),
             Print_out (Msg_text (''[DRY-RUN] '' @ join '' '' (build adb args srl)))],
            Inr (0, [], []))
         \<and> Subprocess_run c t \<notin> set (fst (run adb sub args srl capture tmo check))"
  using assms by (simp add: run_def emit_def return_def Let_def)

theorem run_dry_run_witness:
  "run \<lparr>adb_path = ''adb'', dry_run = True, timeout = 30\<rparr> (\<lambda>cmd t. TimeoutExpired)
       [''shell'', ''rm'', ''-f'', ''/sdcard/x''] (Some ''S1'') True None False =
     ([Log_debug (Msg_text ''ADB CMD: adb -s S1 shell rm -f /sdcard/x''),
       Print_out (Msg_text ''[DRY-RUN] adb -s S1 shell rm -f /sdcard/x'')], Inr (0, [], []))"
proof -
  let ?adb = "\<lparr>adb_path = ''adb'', dry_run = True, timeout = 30\<rparr>"
  have h: "dry_run ?adb" by simp
  from run_dry_run [OF h, where sub = "\<lambda>cmd t. TimeoutExpired"
      and args = "[''shell'', ''rm'', ''-f'', ''/sdcard/x'']" and srl = "Some ''S1''"
      and capture = True and tmo = None and check = False and c = "[]" and t = 0]
  show ?thesis by (simp add: build_def)
qed



end
